theory Spec2Isabelle
  imports Main "HOL-Library.Sublist"
begin

section \<open>Markov chains over a word corpus (notebooks/misc/MarkovChains.ipynb)\<close>

text \<open>
  The notebook has four pieces of code: a tokenizer loop that turns the lines of the
  downloaded text into the list \<open>words\<close>, a first-order and a second-order chain
  builder that fill the dictionary \<open>chain\<close>, and the walker \<open>markov_tweet\<close>.
  Each is embedded below as a HOL function. Python exceptions are values of
  \<open>py_error\<close>, dictionaries are maps, and the random source is an explicit
  sequence of draws.
\<close>

subsection \<open>Python primitives\<close>

datatype py_error = IndexError | KeyError | ValueError

type_synonym token = string

text \<open>
  \<open>xs[i]\<close> on a Python list: a negative index counts from the end, and an index
  outside the list raises \<open>IndexError\<close>.
\<close>

definition getitem :: "'a list \<Rightarrow> int \<Rightarrow> py_error + 'a" where
  "getitem xs i =
     (if 0 \<le> i \<and> i < int (length xs) then Inr (xs ! nat i)
      else if i < 0 \<and> - int (length xs) \<le> i then Inr (xs ! nat (int (length xs) + i))
      else Inl IndexError)"

text \<open>\<open>d[k]\<close> on a Python dict: a missing key raises \<open>KeyError\<close>.\<close>

definition dict_getitem :: "('k \<rightharpoonup> 'v) \<Rightarrow> 'k \<Rightarrow> py_error + 'v" where
  "dict_getitem d k = (case d k of None \<Rightarrow> Inl KeyError | Some v \<Rightarrow> Inr v)"

text \<open>
  The random source is the sequence of raw values it will produce; \<open>rnd n\<close> is the
  \<open>n\<close>-th one. \<open>random.randint(a, b)\<close> returns an integer of \<open>[a, b]\<close> and raises
  \<open>ValueError\<close> on an empty range; \<open>random.choice(seq)\<close> returns an element of
  \<open>seq\<close> and raises \<open>IndexError\<close> on an empty sequence. Both are taken modulo
  the size of the range, so that every value of the range is the result of some draw.
\<close>

type_synonym rng = "nat \<Rightarrow> nat"

definition const_rng :: "nat \<Rightarrow> rng" where
  "const_rng v n = v"

definition randint :: "int \<Rightarrow> int \<Rightarrow> nat \<Rightarrow> py_error + int" where
  "randint a b v = (if b < a then Inl ValueError else Inr (a + int v mod (b - a + 1)))"

definition choice :: "'a list \<Rightarrow> nat \<Rightarrow> py_error + 'a" where
  "choice seq v = (if seq = [] then Inl IndexError else Inr (seq ! (v mod length seq)))"

subsection \<open>Tokenizer\<close>

text \<open>
  \<^verbatim>\<open>
  words = []
  for line in text:
      line = line.decode('utf-8-sig', errors='ignore')
      line = line.encode('ascii', errors='ignore')
      line = line.replace('\r', ' ').replace('\n', ' ')
      new_words = line.split(' ')
      new_words = [word for word in new_words if word not in ['', ' ']]
      words = words + new_words
  \<close>
  The input \<open>text\<close> is the list of lines the iteration yields, each a byte string.
  Decoding with \<open>errors='ignore'\<close> and encoding to ASCII with \<open>errors='ignore'\<close>
  keeps the bytes below 128 in their order and drops every other byte (the byte-order
  mark, multi-byte sequences and undecodable bytes alike).
\<close>

abbreviation SP :: char where "SP \<equiv> CHR '' ''"
abbreviation CR :: char where "CR \<equiv> CHR 0x0D"
abbreviation LF :: char where "LF \<equiv> CHR 0x0A"
abbreviation TAB :: char where "TAB \<equiv> CHR 0x09"

definition ascii_ignore :: "string \<Rightarrow> string" where
  "ascii_ignore line = filter (\<lambda>c. \<not> digit7 c) line"

text \<open>\<open>s.replace(old, new)\<close> for single characters \<open>old\<close> and \<open>new\<close>.\<close>

definition str_replace :: "char \<Rightarrow> char \<Rightarrow> string \<Rightarrow> string" where
  "str_replace old new s = map (\<lambda>c. if c = old then new else c) s"

text \<open>
  \<open>s.split(sep)\<close> for a single character \<open>sep\<close>: one piece more than there are
  separators, empty pieces kept; the empty string gives one empty piece.
\<close>

fun str_split :: "char \<Rightarrow> string \<Rightarrow> string list" where
  "str_split sep [] = [[]]"
| "str_split sep (c # cs) =
     (if c = sep then [] # str_split sep cs
      else (case str_split sep cs of
              [] \<Rightarrow> [[c]]
            | w # ws \<Rightarrow> (c # w) # ws))"

definition line_words :: "string \<Rightarrow> token list" where
  "line_words line =
     (let line1 = ascii_ignore line;
          line2 = str_replace LF SP (str_replace CR SP line1);
          new_words = str_split SP line2
      in filter (\<lambda>word. word \<notin> set ['''', '' '']) new_words)"

fun tokenizer_loop :: "string list \<Rightarrow> token list \<Rightarrow> token list" where
  "tokenizer_loop [] words = words"
| "tokenizer_loop (line # text) words = tokenizer_loop text (words @ line_words line)"

definition tokenizer :: "string list \<Rightarrow> token list" where
  "tokenizer text = tokenizer_loop text []"

text \<open>
  The whitespace characters of ASCII, as Python's \<open>string.whitespace\<close> lists them:
  space, tab, line feed, carriage return, vertical tab and form feed.
\<close>

definition is_whitespace :: "char \<Rightarrow> bool" where
  "is_whitespace c = (c \<in> set [SP, TAB, LF, CR, CHR 0x0B, CHR 0x0C])"

subsection \<open>Chain builders\<close>

text \<open>
  \<^verbatim>\<open>
  chain = {}
  n_words = len(words)
  for i, key in enumerate(words):
      if n_words > (i + 1):
          word = words[i + 1]
          if key not in chain:
              chain[key] = [word]
          else:
              chain[key].append(word)
  \<close>
  The loop runs over the pairs of \<open>enumerate(words)\<close>; the dictionary is threaded
  through it.
\<close>

type_synonym chain1 = "token \<rightharpoonup> token list"
type_synonym chain2 = "token \<times> token \<rightharpoonup> token list"

fun build_chain1 :: "token list \<Rightarrow> (nat \<times> token) list \<Rightarrow> chain1 \<Rightarrow> py_error + chain1" where
  "build_chain1 words [] chain = Inr chain"
| "build_chain1 words ((i, key) # rest) chain =
     (if int (length words) > int i + 1 then
        (case getitem words (int i + 1) of
           Inl e \<Rightarrow> Inl e
         | Inr word \<Rightarrow>
             (case chain key of
                None \<Rightarrow> build_chain1 words rest (chain(key \<mapsto> [word]))
              | Some succs \<Rightarrow> build_chain1 words rest (chain(key \<mapsto> succs @ [word]))))
      else build_chain1 words rest chain)"

definition markov_chain1 :: "token list \<Rightarrow> py_error + chain1" where
  "markov_chain1 words = build_chain1 words (enumerate 0 words) Map.empty"

text \<open>
  \<^verbatim>\<open>
  chain = {}
  n_words = len(words)
  for i, key1 in enumerate(words):
      if n_words > i + 2:
          key2 = words[i + 1]
          word = words[i + 2]
          if (key1, key2) not in chain:
              chain[(key1, key2)] = [word]
          else:
              chain[(key1, key2)].append(word)
  \<close>
\<close>

fun build_chain2 :: "token list \<Rightarrow> (nat \<times> token) list \<Rightarrow> chain2 \<Rightarrow> py_error + chain2" where
  "build_chain2 words [] chain = Inr chain"
| "build_chain2 words ((i, key1) # rest) chain =
     (if int (length words) > int i + 2 then
        (case getitem words (int i + 1) of
           Inl e \<Rightarrow> Inl e
         | Inr key2 \<Rightarrow>
             (case getitem words (int i + 2) of
                Inl e \<Rightarrow> Inl e
              | Inr word \<Rightarrow>
                  (case chain (key1, key2) of
                     None \<Rightarrow> build_chain2 words rest (chain((key1, key2) \<mapsto> [word]))
                   | Some succs \<Rightarrow>
                       build_chain2 words rest (chain((key1, key2) \<mapsto> succs @ [word])))))
      else build_chain2 words rest chain)"

definition markov_chain2 :: "token list \<Rightarrow> py_error + chain2" where
  "markov_chain2 words = build_chain2 words (enumerate 0 words) Map.empty"

text \<open>
  The successors the builders collect, written directly: the tokens that follow the
  occurrences of a key at the positions below \<open>n\<close>, in the order of the positions.
  \<open>chain_of\<close> turns such a table into a dictionary that has no entry where the
  table is empty.
\<close>

definition followers1 :: "token list \<Rightarrow> nat \<Rightarrow> token \<Rightarrow> token list" where
  "followers1 words n k = map (\<lambda>i. words ! (i + 1)) (filter (\<lambda>i. words ! i = k) [0..<n])"

definition followers2 :: "token list \<Rightarrow> nat \<Rightarrow> token \<times> token \<Rightarrow> token list" where
  "followers2 words n k =
     map (\<lambda>i. words ! (i + 2)) (filter (\<lambda>i. (words ! i, words ! (i + 1)) = k) [0..<n])"

definition chain_of :: "('k \<Rightarrow> token list) \<Rightarrow> ('k \<rightharpoonup> token list)" where
  "chain_of f k = (if f k = [] then None else Some (f k))"

subsection \<open>Walker\<close>

text \<open>
  \<^verbatim>\<open>
  def markov_tweet(chain, words):
      r = random.randint(0, len(words) - 1)
      key = (words[r], words[r + 1])
      tweet = key[0] + ' ' + key[1]

      while len(tweet) < 140:
          w = random.choice(chain[key])
          tweet += ' ' + w
          key = (key[1], w)

      print(tweet + '\n')
  \<close>
  The state of the walk is the pair of variables \<open>key\<close> and \<open>tweet\<close>, together with
  the number of values drawn from the random source so far. After an iteration the
  second component of \<open>key\<close> is the token \<open>w\<close> that the iteration sampled.
\<close>

record walker =
  draws :: nat
  key :: "token \<times> token"
  tweet :: string

definition start_index :: "token list \<Rightarrow> rng \<Rightarrow> py_error + int" where
  "start_index words rnd = randint 0 (int (length words) - 1) (rnd 0)"

definition start_key :: "token list \<Rightarrow> rng \<Rightarrow> py_error + token \<times> token" where
  "start_key words rnd =
     (case start_index words rnd of
        Inl e \<Rightarrow> Inl e
      | Inr r \<Rightarrow>
          (case getitem words r of
             Inl e \<Rightarrow> Inl e
           | Inr k0 \<Rightarrow>
               (case getitem words (r + 1) of
                  Inl e \<Rightarrow> Inl e
                | Inr k1 \<Rightarrow> Inr (k0, k1))))"

definition start_walker :: "token \<times> token \<Rightarrow> walker" where
  "start_walker k = \<lparr>draws = 1, key = k, tweet = fst k @ '' '' @ snd k\<rparr>"

text \<open>The three statements of the loop body.\<close>

definition loop_body :: "chain2 \<Rightarrow> rng \<Rightarrow> walker \<Rightarrow> py_error + walker" where
  "loop_body chain rnd s =
     (case dict_getitem chain (key s) of
        Inl e \<Rightarrow> Inl e
      | Inr succs \<Rightarrow>
          (case choice succs (rnd (draws s)) of
             Inl e \<Rightarrow> Inl e
           | Inr w \<Rightarrow>
               Inr \<lparr>draws = Suc (draws s), key = (snd (key s), w), tweet = tweet s @ '' '' @ w\<rparr>))"

function tweet_loop :: "chain2 \<Rightarrow> rng \<Rightarrow> walker \<Rightarrow> py_error + walker" where
  "tweet_loop chain rnd s =
     (if length (tweet s) < 140 then
        (case loop_body chain rnd s of
           Inl e \<Rightarrow> Inl e
         | Inr s' \<Rightarrow> tweet_loop chain rnd s')
      else Inr s)"
  by pat_completeness auto
termination
  by (relation "measure (\<lambda>(chain, rnd, s). 140 - length (tweet s))")
    (auto simp: loop_body_def split: sum.splits)

declare tweet_loop.simps [simp del]

text \<open>\<open>markov_walk\<close> is the function up to the end of its loop; \<open>markov_tweet\<close> returns
  the string that is handed to \<open>print\<close>. The walker that the notebook runs inline before
  it defines the function has the same statements.\<close>

definition markov_walk :: "chain2 \<Rightarrow> token list \<Rightarrow> rng \<Rightarrow> py_error + walker" where
  "markov_walk chain words rnd =
     (case start_key words rnd of
        Inl e \<Rightarrow> Inl e
      | Inr k \<Rightarrow> tweet_loop chain rnd (start_walker k))"

definition markov_tweet :: "chain2 \<Rightarrow> token list \<Rightarrow> rng \<Rightarrow> py_error + string" where
  "markov_tweet chain words rnd =
     (case markov_walk chain words rnd of
        Inl e \<Rightarrow> Inl e
      | Inr s \<Rightarrow> Inr (tweet s @ [LF]))"

text \<open>
  One pass through the loop: the guard holds in \<open>s\<close> and the body takes \<open>s\<close> to
  \<open>s'\<close>. Its reflexive transitive closure relates a state to the states the loop
  reaches from it.
\<close>

definition iteration :: "chain2 \<Rightarrow> rng \<Rightarrow> walker \<Rightarrow> walker \<Rightarrow> bool" where
  "iteration chain rnd s s' = (length (tweet s) < 140 \<and> loop_body chain rnd s = Inr s')"

section \<open>Evaluation on concrete inputs\<close>

text \<open>The defining equations that the simplifier unfolds to run the builders and the
  walker on a concrete corpus.\<close>

lemmas eval_build = markov_chain1_def markov_chain2_def getitem_def enumerate_eq_zip upt_rec

lemmas eval_walk = markov_tweet_def markov_walk_def start_key_def start_index_def randint_def
  getitem_def const_rng_def start_walker_def loop_body_def dict_getitem_def choice_def

section \<open>Properties of the tokenizer\<close>

lemma tokenizer_loop_concat: "tokenizer_loop text words = words @ concat (map line_words text)"
  by (induction "text" arbitrary: words) auto

lemma str_split_no_sep: "w \<in> set (str_split sep s) \<Longrightarrow> sep \<notin> set w"
  by (induction s arbitrary: w) (auto split: list.splits if_splits)

lemma str_split_subset: "w \<in> set (str_split sep s) \<Longrightarrow> set w \<subseteq> set s"
  by (induction s arbitrary: w) (fastforce split: list.splits if_splits)+

lemma str_split_all_sep: "set s \<subseteq> {sep} \<Longrightarrow> set (str_split sep s) \<subseteq> {[]}"
  by (induction s) (auto split: list.splits)

lemma str_replace_absent: "old \<noteq> new \<Longrightarrow> old \<notin> set (str_replace old new s)"
  by (auto simp: str_replace_def)

lemma str_replace_keeps_absent: "c \<notin> set s \<Longrightarrow> c \<noteq> new \<Longrightarrow> c \<notin> set (str_replace old new s)"
  by (auto simp: str_replace_def)

lemma line_words_props:
  assumes "w \<in> set (line_words line)"
  shows "w \<noteq> [] \<and> w \<noteq> '' '' \<and> SP \<notin> set w \<and> CR \<notin> set w \<and> LF \<notin> set w"
proof -
  define line2 where "line2 = str_replace LF SP (str_replace CR SP (ascii_ignore line))"
  from assms have w: "w \<in> set (str_split SP line2)" and ne: "w \<noteq> []" "w \<noteq> '' ''"
    by (auto simp: line_words_def line2_def)
  have "LF \<notin> set line2"
    unfolding line2_def by (rule str_replace_absent) simp
  moreover have "CR \<notin> set line2"
    unfolding line2_def by (rule str_replace_keeps_absent[OF str_replace_absent]) simp_all
  moreover have "set w \<subseteq> set line2"
    using w by (rule str_split_subset)
  moreover have "SP \<notin> set w"
    using w by (rule str_split_no_sep)
  ultimately show ?thesis using ne by auto
qed

lemma line_words_blank:
  assumes "\<forall>c \<in> set line. c = SP \<or> c = CR \<or> c = LF \<or> digit7 c"
  shows "line_words line = []"
proof -
  have "set (str_replace LF SP (str_replace CR SP (ascii_ignore line))) \<subseteq> {SP}"
    using assms by (auto simp: str_replace_def ascii_ignore_def)
  then have "set (str_split SP (str_replace LF SP (str_replace CR SP (ascii_ignore line)))) \<subseteq> {[]}"
    by (rule str_split_all_sep)
  then show ?thesis
    by (auto simp: line_words_def filter_empty_conv)
qed

text \<open>
  C10. Every token the tokenizer produces is a non-empty string, is not the
  single-space string, and contains no space, carriage return or line feed.
\<close>

theorem tokenizer_tokens:
  assumes "w \<in> set (tokenizer text)"
  shows "w \<noteq> [] \<and> w \<noteq> '' '' \<and> SP \<notin> set w \<and> CR \<notin> set w \<and> LF \<notin> set w"
proof -
  from assms obtain line where "line \<in> set text" "w \<in> set (line_words line)"
    by (auto simp: tokenizer_def tokenizer_loop_concat)
  then show ?thesis using line_words_props by blast
qed

theorem tokenizer_tokens_witness:
  "''b.'' \<in> set (tokenizer [''a  b.'' @ [CR, LF], ''c'']) \<and> ''b.'' \<noteq> [] \<and> ''b.'' \<noteq> '' '' \<and> SP \<notin> set ''b.'' \<and> CR \<notin> set ''b.'' \<and> LF \<notin> set ''b.''"
proof -
  have h: "''b.'' \<in> set (tokenizer [''a  b.'' @ [CR, LF], ''c''])"
    by (simp add: tokenizer_def line_words_def ascii_ignore_def str_replace_def)
  show ?thesis using h tokenizer_tokens [OF h] by simp
qed

text \<open>
  C9, as amended. A text that is empty, or whose lines hold nothing but spaces,
  carriage returns, line feeds and bytes outside ASCII (which are stripped), gives an
  empty token sequence. Space, carriage return and line feed are the only whitespace
  the tokenizer separates on.
\<close>

theorem tokenizer_blank:
  assumes "\<forall>line \<in> set text. \<forall>c \<in> set line. c = SP \<or> c = CR \<or> c = LF \<or> digit7 c"
  shows "tokenizer text = []"
  using assms by (simp add: tokenizer_def tokenizer_loop_concat line_words_blank)

theorem tokenizer_blank_witness:
  "tokenizer [[SP, SP, CR, LF], [LF], [CHR 0xC2, CHR 0xA0, SP]] = [] \<and> tokenizer [] = []"
  using tokenizer_blank [of "[[SP, SP, CR, LF], [LF], [CHR 0xC2, CHR 0xA0, SP]]"] tokenizer_blank [of "[]"]
  by simp

text \<open>
  C9 as stated, for every whitespace-only text, fails on a tab: the line made of a tab
  and a line feed consists of whitespace only and yields the token made of the tab.
\<close>

theorem tokenizer_tab_counterexample:
  "list_all is_whitespace [TAB, LF] \<and> tokenizer [[TAB, LF]] = [[TAB]]"
  by (simp add: is_whitespace_def tokenizer_def line_words_def ascii_ignore_def str_replace_def)

section \<open>Properties of the chain builders\<close>

lemma getitem_nat: "n < length xs \<Longrightarrow> getitem xs (int n) = Inr (xs ! n)"
  by (simp add: getitem_def)

lemma getitem_nat1: "n + 1 < length xs \<Longrightarrow> getitem xs (int n + 1) = Inr (xs ! (n + 1))"
  using getitem_nat [of "n + 1" xs] by (simp add: add.commute)

lemma getitem_nat2: "n + 2 < length xs \<Longrightarrow> getitem xs (int n + 2) = Inr (xs ! (n + 2))"
  using getitem_nat [of "n + 2" xs] by (simp add: add.commute)

lemma build_chain1_append:
  "build_chain1 words (xs @ ys) chain =
     (case build_chain1 words xs chain of Inl e \<Rightarrow> Inl e | Inr c \<Rightarrow> build_chain1 words ys c)"
proof (induction xs arbitrary: chain)
  case Nil
  show ?case by simp
next
  case (Cons a xs)
  obtain i key where a: "a = (i, key)" by (cases a)
  show ?case
    unfolding a
    by (cases "getitem words (int i + 1)"; cases "chain key") (simp_all add: Cons.IH fun_upd_def)
qed

lemma build_chain2_append:
  "build_chain2 words (xs @ ys) chain =
     (case build_chain2 words xs chain of Inl e \<Rightarrow> Inl e | Inr c \<Rightarrow> build_chain2 words ys c)"
proof (induction xs arbitrary: chain)
  case Nil
  show ?case by simp
next
  case (Cons a xs)
  obtain i key1 where a: "a = (i, key1)" by (cases a)
  show ?case
  proof (cases "getitem words (int i + 1)")
    case (Inl e)
    then show ?thesis unfolding a by (simp add: Cons.IH)
  next
    case (Inr key2)
    then show ?thesis
      unfolding a
      by (cases "getitem words (int i + 2)"; cases "chain (key1, key2)")
         (simp_all add: Cons.IH fun_upd_def)
  qed
qed

lemma followers1_Suc:
  "followers1 words (Suc n) k =
     followers1 words n k @ (if words ! n = k then [words ! (n + 1)] else [])"
  by (simp add: followers1_def)

lemma followers2_Suc:
  "followers2 words (Suc n) k =
     followers2 words n k @ (if (words ! n, words ! (n + 1)) = k then [words ! (n + 2)] else [])"
  by (simp add: followers2_def)

lemma chain1_step:
  assumes "n + 1 < length words"
  shows "build_chain1 words [(n, words ! n)] (chain_of (followers1 words n)) =
           Inr (chain_of (followers1 words (Suc n)))"
proof -
  have "(chain_of (followers1 words n))(words ! n \<mapsto> followers1 words n (words ! n) @ [words ! (n + 1)])
          = chain_of (followers1 words (Suc n))"
    by (rule ext) (simp add: chain_of_def followers1_Suc)
  moreover have "followers1 words n (words ! n) = [] \<Longrightarrow>
      (chain_of (followers1 words n))(words ! n \<mapsto> [words ! (n + 1)])
          = chain_of (followers1 words (Suc n))"
    by (rule ext) (simp add: chain_of_def followers1_Suc)
  ultimately show ?thesis
    using assms by (auto simp: getitem_nat1 chain_of_def split: option.splits if_splits)
qed

lemma chain2_step:
  assumes "n + 2 < length words"
  shows "build_chain2 words [(n, words ! n)] (chain_of (followers2 words n)) =
           Inr (chain_of (followers2 words (Suc n)))"
proof -
  let ?k = "(words ! n, words ! (n + 1))"
  have "(chain_of (followers2 words n))(?k \<mapsto> followers2 words n ?k @ [words ! (n + 2)])
          = chain_of (followers2 words (Suc n))"
    by (rule ext) (simp add: chain_of_def followers2_Suc)
  moreover have "followers2 words n ?k = [] \<Longrightarrow>
      (chain_of (followers2 words n))(?k \<mapsto> [words ! (n + 2)])
          = chain_of (followers2 words (Suc n))"
    by (rule ext) (simp add: chain_of_def followers2_Suc)
  ultimately show ?thesis
    using assms by (auto simp: getitem_nat1 getitem_nat2 chain_of_def split: option.splits if_splits)
qed

lemma chain_of_followers1_0: "chain_of (followers1 words 0) = Map.empty"
  by (rule ext) (simp add: chain_of_def followers1_def)

lemma chain_of_followers2_0: "chain_of (followers2 words 0) = Map.empty"
  by (rule ext) (simp add: chain_of_def followers2_def)

lemma take_enumerate_Suc:
  "n < length words \<Longrightarrow>
     take (Suc n) (enumerate 0 words) = take n (enumerate 0 words) @ [(n, words ! n)]"
  by (simp add: take_Suc_conv_app_nth nth_enumerate_eq)

lemma build_chain1_take:
  "n \<le> length words \<Longrightarrow>
     build_chain1 words (take n (enumerate 0 words)) Map.empty =
       Inr (chain_of (followers1 words (min n (length words - 1))))"
proof (induction n)
  case 0
  show ?case by (simp add: chain_of_followers1_0)
next
  case (Suc n)
  then have n: "n < length words" and
    IH: "build_chain1 words (take n (enumerate 0 words)) Map.empty =
           Inr (chain_of (followers1 words (min n (length words - 1))))"
    by simp_all
  have unfold: "build_chain1 words (take (Suc n) (enumerate 0 words)) Map.empty =
      build_chain1 words [(n, words ! n)] (chain_of (followers1 words (min n (length words - 1))))"
    by (simp only: take_enumerate_Suc [OF n] build_chain1_append IH sum.case)
  show ?case
  proof (cases "n + 1 < length words")
    case True
    then have "min n (length words - 1) = n" "min (Suc n) (length words - 1) = Suc n"
      by simp_all
    with unfold chain1_step [OF True] show ?thesis
      by simp
  next
    case False
    then have "min (Suc n) (length words - 1) = min n (length words - 1)"
      by simp
    with unfold False show ?thesis
      by simp
  qed
qed

lemma build_chain2_take:
  "n \<le> length words \<Longrightarrow>
     build_chain2 words (take n (enumerate 0 words)) Map.empty =
       Inr (chain_of (followers2 words (min n (length words - 2))))"
proof (induction n)
  case 0
  show ?case by (simp add: chain_of_followers2_0)
next
  case (Suc n)
  then have n: "n < length words" and
    IH: "build_chain2 words (take n (enumerate 0 words)) Map.empty =
           Inr (chain_of (followers2 words (min n (length words - 2))))"
    by simp_all
  have unfold: "build_chain2 words (take (Suc n) (enumerate 0 words)) Map.empty =
      build_chain2 words [(n, words ! n)] (chain_of (followers2 words (min n (length words - 2))))"
    by (simp only: take_enumerate_Suc [OF n] build_chain2_append IH sum.case)
  show ?case
  proof (cases "n + 2 < length words")
    case True
    then have "min n (length words - 2) = n" "min (Suc n) (length words - 2) = Suc n"
      by simp_all
    with unfold chain2_step [OF True] show ?thesis
      by simp
  next
    case False
    then have "min (Suc n) (length words - 2) = min n (length words - 2)"
      by simp
    with unfold False show ?thesis
      by simp
  qed
qed

lemma markov_chain1_eq:
  "markov_chain1 words = Inr (chain_of (followers1 words (length words - 1)))"
  using build_chain1_take [of "length words" words] by (simp add: markov_chain1_def)

lemma markov_chain2_eq:
  "markov_chain2 words = Inr (chain_of (followers2 words (length words - 2)))"
  using build_chain2_take [of "length words" words] by (simp add: markov_chain2_def)

lemma followers1_empty_iff:
  "followers1 words n k = [] \<longleftrightarrow> \<not> (\<exists>i < n. words ! i = k)"
  by (auto simp: followers1_def filter_empty_conv)

lemma followers2_empty_iff:
  "followers2 words n k = [] \<longleftrightarrow> \<not> (\<exists>i < n. (words ! i, words ! (i + 1)) = k)"
  by (auto simp: followers2_def filter_empty_conv)

text \<open>
  C3. For the orders 1 and 2 the builder returns a chain (it never raises), and the
  chain maps a key to a list exactly when the key occurs in the corpus at some position
  \<open>i\<close> with a token \<open>N\<close> places further on; the list then holds that following
  token for every such occurrence, once per occurrence and in the order of the
  occurrences.
\<close>

theorem chain_contents:
  "(\<exists>chain. markov_chain1 words = Inr chain \<and>
      (\<forall>k s. chain k = Some s \<longleftrightarrow>
         (\<exists>i. i + 1 < length words \<and> words ! i = k) \<and>
         s = map (\<lambda>i. words ! (i + 1)) (filter (\<lambda>i. words ! i = k) [0..<length words - 1]))) \<and>
   (\<exists>chain. markov_chain2 words = Inr chain \<and>
      (\<forall>k1 k2 s. chain (k1, k2) = Some s \<longleftrightarrow>
         (\<exists>i. i + 2 < length words \<and> words ! i = k1 \<and> words ! (i + 1) = k2) \<and>
         s = map (\<lambda>i. words ! (i + 2))
               (filter (\<lambda>i. words ! i = k1 \<and> words ! (i + 1) = k2) [0..<length words - 2])))"
proof (intro conjI)
  have "\<And>k s. chain_of (followers1 words (length words - 1)) k = Some s \<longleftrightarrow>
         (\<exists>i. i + 1 < length words \<and> words ! i = k) \<and>
         s = map (\<lambda>i. words ! (i + 1)) (filter (\<lambda>i. words ! i = k) [0..<length words - 1])"
    unfolding chain_of_def followers1_empty_iff
    by (auto simp: followers1_def less_diff_conv)
  then show "\<exists>chain. markov_chain1 words = Inr chain \<and>
      (\<forall>k s. chain k = Some s \<longleftrightarrow>
         (\<exists>i. i + 1 < length words \<and> words ! i = k) \<and>
         s = map (\<lambda>i. words ! (i + 1)) (filter (\<lambda>i. words ! i = k) [0..<length words - 1]))"
    unfolding markov_chain1_eq by blast
next
  have "\<And>k1 k2 s. chain_of (followers2 words (length words - 2)) (k1, k2) = Some s \<longleftrightarrow>
         (\<exists>i. i + 2 < length words \<and> words ! i = k1 \<and> words ! (i + 1) = k2) \<and>
         s = map (\<lambda>i. words ! (i + 2))
               (filter (\<lambda>i. words ! i = k1 \<and> words ! (i + 1) = k2) [0..<length words - 2])"
    unfolding chain_of_def followers2_empty_iff
    by (auto simp: followers2_def less_diff_conv)
  then show "\<exists>chain. markov_chain2 words = Inr chain \<and>
      (\<forall>k1 k2 s. chain (k1, k2) = Some s \<longleftrightarrow>
         (\<exists>i. i + 2 < length words \<and> words ! i = k1 \<and> words ! (i + 1) = k2) \<and>
         s = map (\<lambda>i. words ! (i + 2))
               (filter (\<lambda>i. words ! i = k1 \<and> words ! (i + 1) = k2) [0..<length words - 2]))"
    unfolding markov_chain2_eq by blast
qed

text \<open>
  C7. On a corpus of fewer than \<open>N + 1\<close> tokens the builder of order \<open>N\<close> returns
  the empty chain, and not an error.
\<close>

theorem short_corpus_empty_chain:
  "(length words < 2 \<longrightarrow> markov_chain1 words = Inr Map.empty) \<and>
   (length words < 3 \<longrightarrow> markov_chain2 words = Inr Map.empty)"
proof (intro conjI impI)
  assume "length words < 2"
  then have "length words - 1 = 0" by simp
  then show "markov_chain1 words = Inr Map.empty"
    by (simp add: markov_chain1_eq chain_of_followers1_0)
next
  assume "length words < 3"
  then have "length words - 2 = 0" by simp
  then show "markov_chain2 words = Inr Map.empty"
    by (simp add: markov_chain2_eq chain_of_followers2_0)
qed

theorem short_corpus_empty_chain_witness:
  "markov_chain1 [''dog''] = Inr Map.empty \<and> markov_chain2 [''dog''] = Inr Map.empty"
  using short_corpus_empty_chain [of "[''dog'']"] by simp

text \<open>
  C8. The scenario of the notebook: on the tokens of "the brown fox jumped over the lazy
  dog" the first-order chain has brown, lazy under the key the, and jumped under fox; the
  second-order chain has fox under (the, brown) and lazy under (over, the).
\<close>

theorem fox_corpus_chains:
  "tokenizer [''the brown fox jumped over the lazy dog''] =
     [''the'', ''brown'', ''fox'', ''jumped'', ''over'', ''the'', ''lazy'', ''dog''] \<and>
   (\<exists>chain. markov_chain1 [''the'', ''brown'', ''fox'', ''jumped'', ''over'', ''the'', ''lazy'', ''dog''] = Inr chain \<and>
      chain ''the'' = Some [''brown'', ''lazy''] \<and> chain ''fox'' = Some [''jumped'']) \<and>
   (\<exists>chain. markov_chain2 [''the'', ''brown'', ''fox'', ''jumped'', ''over'', ''the'', ''lazy'', ''dog''] = Inr chain \<and>
      chain (''the'', ''brown'') = Some [''fox''] \<and> chain (''over'', ''the'') = Some [''lazy''])"
proof (intro conjI)
  show "tokenizer [''the brown fox jumped over the lazy dog''] =
     [''the'', ''brown'', ''fox'', ''jumped'', ''over'', ''the'', ''lazy'', ''dog'']"
    by (simp add: tokenizer_def line_words_def ascii_ignore_def str_replace_def)
  show "\<exists>chain. markov_chain1 [''the'', ''brown'', ''fox'', ''jumped'', ''over'', ''the'', ''lazy'', ''dog''] = Inr chain \<and>
      chain ''the'' = Some [''brown'', ''lazy''] \<and> chain ''fox'' = Some [''jumped'']"
    by (simp add: markov_chain1_def getitem_def enumerate_eq_zip upt_rec)
  show "\<exists>chain. markov_chain2 [''the'', ''brown'', ''fox'', ''jumped'', ''over'', ''the'', ''lazy'', ''dog''] = Inr chain \<and>
      chain (''the'', ''brown'') = Some [''fox''] \<and> chain (''over'', ''the'') = Some [''lazy'']"
    by (simp add: markov_chain2_def getitem_def enumerate_eq_zip upt_rec)
qed

section \<open>Properties of the walker\<close>

lemma loop_body_KeyError: "loop_body chain rnd s = Inl KeyError \<longleftrightarrow> chain (key s) = None"
  by (auto simp: loop_body_def dict_getitem_def choice_def split: option.splits sum.splits if_splits)

lemma loop_body_tweet:
  "loop_body chain rnd s = Inr s' \<Longrightarrow>
     \<exists>succs w. chain (key s) = Some succs \<and> choice succs (rnd (draws s)) = Inr w \<and>
       key s' = (snd (key s), w) \<and> tweet s' = tweet s @ '' '' @ w"
  by (auto simp: loop_body_def dict_getitem_def split: option.splits sum.splits)

lemma tweet_loop_result:
  "tweet_loop chain rnd s = Inr s' \<Longrightarrow> 140 \<le> length (tweet s') \<and> prefix (tweet s) (tweet s')"
proof (induction chain rnd s rule: tweet_loop.induct)
  case (1 chain rnd s)
  show ?case
  proof (cases "length (tweet s) < 140")
    case False
    with "1.prems" show ?thesis by (simp add: tweet_loop.simps)
  next
    case True
    with "1.prems" obtain s1 where body: "loop_body chain rnd s = Inr s1"
      and rest: "tweet_loop chain rnd s1 = Inr s'"
      by (auto simp: tweet_loop.simps [of chain rnd s] split: sum.splits)
    from "1.IH" [OF True body rest] have "140 \<le> length (tweet s')" "prefix (tweet s1) (tweet s')"
      by simp_all
    moreover from loop_body_tweet [OF body] have "prefix (tweet s) (tweet s1)"
      by auto
    ultimately show ?thesis by (auto intro: prefix_order.trans)
  qed
qed

lemma tweet_loop_last:
  "tweet_loop chain rnd s = Inr s' \<Longrightarrow> length (tweet s) < 140 \<Longrightarrow>
     \<exists>s0. length (tweet s0) < 140 \<and> loop_body chain rnd s0 = Inr s'"
proof (induction chain rnd s rule: tweet_loop.induct)
  case (1 chain rnd s)
  from "1.prems" obtain s1 where body: "loop_body chain rnd s = Inr s1"
    and rest: "tweet_loop chain rnd s1 = Inr s'"
    by (auto simp: tweet_loop.simps [of chain rnd s] split: sum.splits)
  show ?case
  proof (cases "length (tweet s1) < 140")
    case True
    from "1.IH" [OF "1.prems"(2) body rest True] show ?thesis .
  next
    case False
    with rest have "s' = s1" by (simp add: tweet_loop.simps [of chain rnd s1])
    with body "1.prems"(2) show ?thesis by blast
  qed
qed

lemma start_index_range:
  "start_index words rnd = Inr r \<Longrightarrow> 0 \<le> r \<and> r \<le> int (length words) - 1"
proof -
  assume a: "start_index words rnd = Inr r"
  then have ne: "0 < int (length words)" and r: "r = int (rnd 0) mod int (length words)"
    by (auto simp: start_index_def randint_def split: if_splits)
  from ne have "0 \<le> int (rnd 0) mod int (length words)"
    by (rule pos_mod_sign)
  moreover from ne have "int (rnd 0) mod int (length words) < int (length words)"
    by (rule pos_mod_bound)
  ultimately show ?thesis using r by simp
qed

lemma getitem_Inr:
  "getitem xs i = Inr x \<Longrightarrow> 0 \<le> i \<Longrightarrow> i < int (length xs) \<and> x = xs ! nat i"
  by (auto simp: getitem_def split: if_splits)

lemma start_key_Inr:
  assumes "start_key words rnd = Inr k"
  shows "\<exists>r. start_index words rnd = Inr r \<and> 0 \<le> r \<and> r + 1 < int (length words) \<and>
       k = (words ! nat r, words ! nat (r + 1))"
proof -
  from assms obtain r k0 k1 where r: "start_index words rnd = Inr r"
    and k0: "getitem words r = Inr k0" and k1: "getitem words (r + 1) = Inr k1"
    and k: "k = (k0, k1)"
    by (auto simp: start_key_def split: sum.splits)
  from start_index_range [OF r] have r0: "0 \<le> r" by simp
  from getitem_Inr [OF k0 r0] have "k0 = words ! nat r" by simp
  moreover from r0 getitem_Inr [OF k1] have "r + 1 < int (length words)" "k1 = words ! nat (r + 1)"
    by simp_all
  ultimately show ?thesis using r r0 k by blast
qed

lemma start_key_not_KeyError: "start_key words rnd \<noteq> Inl KeyError"
  by (simp add: start_key_def start_index_def randint_def getitem_def
      split: sum.split)

lemma tweet_loop_KeyError_iff:
  "tweet_loop chain rnd s = Inl KeyError \<longleftrightarrow>
     (\<exists>s'. (iteration chain rnd)\<^sup>*\<^sup>* s s' \<and> length (tweet s') < 140 \<and> chain (key s') = None)"
proof
  assume "tweet_loop chain rnd s = Inl KeyError"
  then show "\<exists>s'. (iteration chain rnd)\<^sup>*\<^sup>* s s' \<and> length (tweet s') < 140 \<and> chain (key s') = None"
  proof (induction chain rnd s rule: tweet_loop.induct)
    case (1 chain rnd s)
    from "1.prems" have guard: "length (tweet s) < 140"
      by (auto simp: tweet_loop.simps [of chain rnd s] split: if_splits)
    show ?case
    proof (cases "loop_body chain rnd s")
      case (Inl e)
      with "1.prems" guard have "e = KeyError"
        by (simp add: tweet_loop.simps [of chain rnd s])
      with Inl have "chain (key s) = None" by (simp add: loop_body_KeyError)
      with guard show ?thesis by blast
    next
      case (Inr s1)
      with "1.prems" guard have "tweet_loop chain rnd s1 = Inl KeyError"
        by (simp add: tweet_loop.simps [of chain rnd s])
      from "1.IH" [OF guard Inr this] obtain s' where
        s': "(iteration chain rnd)\<^sup>*\<^sup>* s1 s'" "length (tweet s') < 140" "chain (key s') = None"
        by blast
      from guard Inr have "iteration chain rnd s s1" by (simp add: iteration_def)
      then have "(iteration chain rnd)\<^sup>*\<^sup>* s s'"
        using s'(1) by (rule converse_rtranclp_into_rtranclp)
      with s'(2,3) show ?thesis by blast
    qed
  qed
next
  assume "\<exists>s'. (iteration chain rnd)\<^sup>*\<^sup>* s s' \<and> length (tweet s') < 140 \<and> chain (key s') = None"
  then obtain s' where reach: "(iteration chain rnd)\<^sup>*\<^sup>* s s'"
    and s': "length (tweet s') < 140" "chain (key s') = None"
    by blast
  from reach s' show "tweet_loop chain rnd s = Inl KeyError"
  proof (induction rule: converse_rtranclp_induct)
    case base
    then have "loop_body chain rnd s' = Inl KeyError" by (simp add: loop_body_KeyError)
    with base show ?case by (simp add: tweet_loop.simps [of chain rnd s'])
  next
    case (step y z)
    then show ?case
      by (simp add: iteration_def tweet_loop.simps [of chain rnd y])
  qed
qed

text \<open>
  C4. When \<open>markov_tweet\<close> leaves its loop without an exception, the text it has
  built is at least 140 characters long and starts with the two tokens of the start
  context joined by a space; that text, followed by a line feed, is handed to
  \<open>print\<close>.
\<close>

theorem walk_output:
  assumes "markov_walk chain words rnd = Inr s"
  shows "140 \<le> length (tweet s) \<and>
         (\<exists>r. start_index words rnd = Inr r \<and> 0 \<le> r \<and> r + 1 < int (length words) \<and>
              prefix (words ! nat r @ '' '' @ words ! nat (r + 1)) (tweet s)) \<and>
         markov_tweet chain words rnd = Inr (tweet s @ [LF])"
proof -
  from assms obtain k where k: "start_key words rnd = Inr k"
    and loop: "tweet_loop chain rnd (start_walker k) = Inr s"
    by (auto simp: markov_walk_def split: sum.splits)
  from tweet_loop_result [OF loop] have "140 \<le> length (tweet s)"
    "prefix (fst k @ '' '' @ snd k) (tweet s)"
    by (simp_all add: start_walker_def)
  with start_key_Inr [OF k] assms show ?thesis
    by (auto simp: markov_tweet_def)
qed

theorem walk_output_witness:
  "\<exists>chain s. markov_chain2 [''Markov'', ''chains'', ''Markov'', ''chains''] = Inr chain \<and>
     markov_walk chain [''Markov'', ''chains'', ''Markov'', ''chains''] (const_rng 0) = Inr s \<and>
     140 \<le> length (tweet s) \<and> prefix ''Markov chains'' (tweet s)"
proof -
  let ?words = "[''Markov'', ''chains'', ''Markov'', ''chains'']"
  let ?chain = "[(''Markov'', ''chains'') \<mapsto> [''Markov''], (''chains'', ''Markov'') \<mapsto> [''chains'']]"
  have c: "markov_chain2 ?words = Inr ?chain"
    by (simp add: eval_build)
  have "\<exists>s. markov_walk ?chain ?words (const_rng 0) = Inr s"
    by (simp add: eval_walk tweet_loop.simps)
  then obtain s where s: "markov_walk ?chain ?words (const_rng 0) = Inr s" ..
  have r: "start_index ?words (const_rng 0) = Inr 0"
    by (simp add: start_index_def randint_def const_rng_def)
  from walk_output [OF s] r have "140 \<le> length (tweet s)" "prefix ''Markov chains'' (tweet s)"
    by auto
  with c s show ?thesis by blast
qed

text \<open>
  C6, as amended. Whenever the loop is left without an exception, the text starts with
  the start context and is handed to \<open>print\<close> whole, without truncation. When the
  start context renders to fewer than 140 characters, so that the loop body runs at
  least once, the loop ends right after an iteration that began below 140 characters
  and appended a space and the whole sampled token \<open>w\<close>: the final length is at most
  140 plus the length of \<open>w\<close>. When the start context already renders to 140
  characters or more, the loop body never runs and the text is the start context
  itself, whatever its length.
\<close>

theorem overshoot_bound:
  assumes "markov_walk chain words rnd = Inr s"
    and "start_key words rnd = Inr k"
  shows "markov_tweet chain words rnd = Inr (tweet s @ [LF]) \<and>
         prefix (fst k @ '' '' @ snd k) (tweet s) \<and>
         (length (fst k @ '' '' @ snd k) < 140 \<longrightarrow>
            (\<exists>(s0::walker) succs w. length (tweet s0) < 140 \<and> chain (key s0) = Some succs \<and>
               choice succs (rnd (draws s0)) = Inr w \<and> key s = (snd (key s0), w) \<and>
               tweet s = tweet s0 @ '' '' @ w \<and> length (tweet s) \<le> 140 + length w)) \<and>
         (140 \<le> length (fst k @ '' '' @ snd k) \<longrightarrow>
            s = start_walker k \<and> tweet s = fst k @ '' '' @ snd k)"
proof (intro conjI impI)
  from assms(1) show "markov_tweet chain words rnd = Inr (tweet s @ [LF])"
    by (simp add: markov_tweet_def)
next
  from assms have loop: "tweet_loop chain rnd (start_walker k) = Inr s"
    by (simp add: markov_walk_def)
  from tweet_loop_result [OF loop] show "prefix (fst k @ '' '' @ snd k) (tweet s)"
    by (simp add: start_walker_def)
next
  assume short: "length (fst k @ '' '' @ snd k) < 140"
  from assms have loop: "tweet_loop chain rnd (start_walker k) = Inr s"
    by (simp add: markov_walk_def)
  from short have "length (tweet (start_walker k)) < 140"
    by (simp add: start_walker_def)
  from tweet_loop_last [OF loop this] obtain s0 where s0: "length (tweet s0) < 140"
    and body: "loop_body chain rnd s0 = Inr s" by blast
  from loop_body_tweet [OF body] obtain succs w where
    w: "chain (key s0) = Some succs" "choice succs (rnd (draws s0)) = Inr w"
       "tweet s = tweet s0 @ '' '' @ w" "key s = (snd (key s0), w)"
    by blast
  from s0 w(3) have bound: "length (tweet s) \<le> 140 + length w" by simp
  with s0 w show "\<exists>(s0::walker) succs w. length (tweet s0) < 140 \<and> chain (key s0) = Some succs \<and>
               choice succs (rnd (draws s0)) = Inr w \<and> key s = (snd (key s0), w) \<and>
               tweet s = tweet s0 @ '' '' @ w \<and> length (tweet s) \<le> 140 + length w"
    by - (rule exI [of _ s0], rule exI [of _ succs], rule exI [of _ w], simp)
next
  assume long: "140 \<le> length (fst k @ '' '' @ snd k)"
  from assms have loop: "tweet_loop chain rnd (start_walker k) = Inr s"
    by (simp add: markov_walk_def)
  from long have "\<not> length (tweet (start_walker k)) < 140"
    by (simp add: start_walker_def)
  with loop show s: "s = start_walker k"
    by (simp add: tweet_loop.simps [of chain rnd "start_walker k"])
  then show "tweet s = fst k @ '' '' @ snd k"
    by (simp add: start_walker_def)
qed

theorem overshoot_bound_witness:
  "(\<exists>s. markov_walk [(''the'', ''brown'') \<mapsto> [replicate 130 CHR ''a'']]
          [''the'', ''brown'', replicate 130 CHR ''a''] (const_rng 0) = Inr s \<and>
      tweet s = ''the brown '' @ replicate 130 CHR ''a'' \<and> length (tweet s) \<le> 140 + 130 \<and>
      markov_tweet [(''the'', ''brown'') \<mapsto> [replicate 130 CHR ''a'']]
          [''the'', ''brown'', replicate 130 CHR ''a''] (const_rng 0) = Inr (tweet s @ [LF])) \<and>
   (\<exists>s. markov_walk [(replicate 150 CHR ''x'', ''fox'') \<mapsto> [''jumped'']]
          [replicate 150 CHR ''x'', ''fox'', ''jumped''] (const_rng 0) = Inr s \<and>
      s = start_walker (replicate 150 CHR ''x'', ''fox'') \<and>
      tweet s = replicate 150 CHR ''x'' @ '' fox'' \<and>
      markov_tweet [(replicate 150 CHR ''x'', ''fox'') \<mapsto> [''jumped'']]
          [replicate 150 CHR ''x'', ''fox'', ''jumped''] (const_rng 0) = Inr (tweet s @ [LF]))"
proof (intro conjI)
  let ?w = "replicate 130 CHR ''a''"
  let ?chain = "[(''the'', ''brown'') \<mapsto> [?w]]"
  let ?words = "[''the'', ''brown'', ?w]"
  have k: "start_key ?words (const_rng 0) = Inr (''the'', ''brown'')"
    by (simp add: eval_walk)
  have s: "markov_walk ?chain ?words (const_rng 0) =
      Inr \<lparr>draws = 2, key = (''brown'', ?w), tweet = ''the brown '' @ ?w\<rparr>"
    by (simp add: eval_walk tweet_loop.simps)
  from overshoot_bound [OF s k] s
  show "\<exists>s. markov_walk ?chain ?words (const_rng 0) = Inr s \<and>
      tweet s = ''the brown '' @ ?w \<and> length (tweet s) \<le> 140 + 130 \<and>
      markov_tweet ?chain ?words (const_rng 0) = Inr (tweet s @ [LF])"
    by simp
next
  let ?x = "replicate 150 CHR ''x''"
  let ?chain = "[(?x, ''fox'') \<mapsto> [''jumped'']]"
  let ?words = "[?x, ''fox'', ''jumped'']"
  have k: "start_key ?words (const_rng 0) = Inr (?x, ''fox'')"
    by (simp add: eval_walk)
  have "\<exists>s. markov_walk ?chain ?words (const_rng 0) = Inr s"
    by (simp add: eval_walk tweet_loop.simps)
  then obtain s where s: "markov_walk ?chain ?words (const_rng 0) = Inr s" ..
  have "140 \<le> length (fst (?x, ''fox'') @ '' '' @ snd (?x, ''fox''))"
    by simp
  with overshoot_bound [OF s k] s
  show "\<exists>s. markov_walk ?chain ?words (const_rng 0) = Inr s \<and>
      s = start_walker (?x, ''fox'') \<and> tweet s = ?x @ '' fox'' \<and>
      markov_tweet ?chain ?words (const_rng 0) = Inr (tweet s @ [LF])"
    by (simp add: start_walker_def)
qed

text \<open>
  C6 as stated fails when the start context already renders to 140 characters or more:
  the loop body never runs, no token is sampled, and the text is the start context
  itself. With a first token of 140 characters followed by the token b the text has 142
  characters, more than 140 plus the length of its last token.
\<close>

theorem overshoot_counterexample:
  "markov_chain2 [replicate 140 CHR ''a'', ''b'', ''c''] = Inr [(replicate 140 CHR ''a'', ''b'') \<mapsto> [''c'']] \<and>
   markov_walk [(replicate 140 CHR ''a'', ''b'') \<mapsto> [''c'']] [replicate 140 CHR ''a'', ''b'', ''c''] (const_rng 0) =
     Inr \<lparr>draws = 1, key = (replicate 140 CHR ''a'', ''b''), tweet = replicate 140 CHR ''a'' @ '' b''\<rparr> \<and>
   \<not> length (replicate 140 CHR ''a'' @ '' b'') \<le> 140 + length ''b''"
  by (simp add: eval_walk eval_build tweet_loop.simps)

text \<open>
  C5. One pass of the loop body raises \<open>KeyError\<close> exactly when the current context
  key has no entry in the chain, and \<open>markov_tweet\<close> as a whole raises \<open>KeyError\<close>
  exactly when its loop reaches, below 140 characters, a context key that has no entry:
  the error is passed on to the caller as it is, whatever the later draws would be.
\<close>

theorem missing_context:
  "(loop_body chain rnd s = Inl KeyError \<longleftrightarrow> chain (key s) = None) \<and>
   (markov_tweet chain words rnd = Inl KeyError \<longleftrightarrow>
      (\<exists>k s'. start_key words rnd = Inr k \<and> (iteration chain rnd)\<^sup>*\<^sup>* (start_walker k) s' \<and>
         length (tweet s') < 140 \<and> chain (key s') = None))"
proof -
  have "markov_tweet chain words rnd = Inl KeyError \<longleftrightarrow>
          (\<exists>k. start_key words rnd = Inr k \<and> tweet_loop chain rnd (start_walker k) = Inl KeyError)"
    using start_key_not_KeyError [of words rnd]
    by (auto simp: markov_tweet_def markov_walk_def split: sum.splits)
  then show ?thesis
    by (simp add: loop_body_KeyError tweet_loop_KeyError_iff)
qed

theorem missing_context_witness:
  "markov_tweet [(''the'', ''brown'') \<mapsto> [''fox'']] [''the'', ''brown'', ''fox''] (const_rng 1) = Inl KeyError"
proof -
  let ?chain = "[(''the'', ''brown'') \<mapsto> [''fox'']]"
  let ?words = "[''the'', ''brown'', ''fox'']"
  have k: "start_key ?words (const_rng 1) = Inr (''brown'', ''fox'')"
    by (simp add: eval_walk)
  have "(iteration ?chain (const_rng 1))\<^sup>*\<^sup>* (start_walker (''brown'', ''fox'')) (start_walker (''brown'', ''fox''))"
    by simp
  moreover have "length (tweet (start_walker (''brown'', ''fox''))) < 140"
    "?chain (key (start_walker (''brown'', ''fox''))) = None"
    by (simp_all add: start_walker_def)
  ultimately show ?thesis
    using k missing_context [of ?chain "const_rng 1" "start_walker (''brown'', ''fox'')" ?words]
    by blast
qed

text \<open>
  C2. On a non-empty corpus the draw \<open>r = len(words) - 1\<close> is a result of
  \<open>random.randint(0, len(words) - 1)\<close>, and with it \<open>words[r + 1]\<close> is read one
  place past the end of the corpus: \<open>markov_tweet\<close> raises \<open>IndexError\<close>.
\<close>

theorem start_out_of_bounds:
  assumes "words \<noteq> []" and "rnd 0 = length words - 1"
  shows "start_index words rnd = Inr (int (length words) - 1) \<and>
         getitem words (int (length words) - 1 + 1) = Inl IndexError \<and>
         markov_tweet chain words rnd = Inl IndexError"
proof -
  from assms(1) have len: "0 < length words" by simp
  then have v: "int (rnd 0) = int (length words) - 1"
    using assms(2) by (simp add: Suc_leI)
  from len have m: "(int (length words) - 1) mod int (length words) = int (length words) - 1"
    by (intro mod_pos_pos_trivial) simp_all
  have "randint 0 (int (length words) - 1) (rnd 0) =
          Inr (0 + int (rnd 0) mod (int (length words) - 1 - 0 + 1))"
    using len unfolding randint_def by simp
  also have "int (rnd 0) mod (int (length words) - 1 - 0 + 1) = int (length words) - 1"
    unfolding v using m by (simp only: diff_zero diff_add_cancel)
  finally have r: "start_index words rnd = Inr (int (length words) - 1)"
    by (simp add: start_index_def)
  have oob: "getitem words (int (length words) - 1 + 1) = Inl IndexError"
    by (simp add: getitem_def)
  from len obtain k0 where "getitem words (int (length words) - 1) = Inr k0"
    by (simp add: getitem_def)
  with r oob show ?thesis
    by (simp add: markov_tweet_def markov_walk_def start_key_def)
qed

theorem start_out_of_bounds_witness:
  "start_index [''dog''] (const_rng 0) = Inr 0 \<and>
   markov_tweet Map.empty [''dog''] (const_rng 0) = Inl IndexError"
  using start_out_of_bounds [of "[''dog'']" "const_rng 0" Map.empty]
  by (simp add: const_rng_def)

text \<open>
  C1. The start index is drawn from \<open>[0, len(words) - 1]\<close>, not from
  \<open>[0, len(words) - 2]\<close> or a smaller range. On the corpus the, brown, fox the draw
  \<open>r = 2\<close> lies beyond \<open>len(words) - 2 = 1\<close> and \<open>words[r + 1]\<close> raises
  \<open>IndexError\<close>; the draw \<open>r = 1\<close> starts at the last pair of the corpus, which is
  not a key of the chain, and the first lookup raises \<open>KeyError\<close>.
\<close>

theorem start_index_past_last_window:
  "markov_chain2 [''the'', ''brown'', ''fox''] = Inr [(''the'', ''brown'') \<mapsto> [''fox'']] \<and>
   start_index [''the'', ''brown'', ''fox''] (const_rng 2) = Inr 2 \<and>
   \<not> (2 \<le> int (length [''the'', ''brown'', ''fox'']) - 2) \<and>
   markov_tweet [(''the'', ''brown'') \<mapsto> [''fox'']] [''the'', ''brown'', ''fox''] (const_rng 2) = Inl IndexError \<and>
   start_key [''the'', ''brown'', ''fox''] (const_rng 1) = Inr (''brown'', ''fox'') \<and>
   markov_tweet [(''the'', ''brown'') \<mapsto> [''fox'']] [''the'', ''brown'', ''fox''] (const_rng 1) = Inl KeyError"
  by (simp add: eval_walk eval_build tweet_loop.simps)

end
